theory Spec2Isabelle
  imports Main
begin

section \<open>Data model\<close>

text \<open>
  Modelled from the spec: the header \<^verbatim>\<open>type_matcher.hpp\<close> (namespace \<^verbatim>\<open>matcher\<close>) is
  included by \<^verbatim>\<open>format_parser.hpp\<close> but is not among the sources. The spec describes the
  type matcher as a closed variant with the seven categories below, the default-constructed
  value \<^verbatim>\<open>matcher::PlaceholderType{}\<close> being the category without a type requirement.
\<close>

datatype PlaceholderType =
    Unconstrained
  | SignedIntType
  | UnsignedIntType
  | FloatingType
  | CharType
  | StringType
  | PointerType

text \<open>
  A \<^verbatim>\<open>std::string_view\<close> is modelled by the characters it denotes. Every view the parser
  handles is a suffix of the format string that was passed in, so the position of a view is
  determined by its length.
\<close>

type_synonym string_view = string

text \<open>
  The two ways in which a call ends without a value. \<open>out_of_range\<close> is the exception
  \<^verbatim>\<open>std::out_of_range\<close> that \<^verbatim>\<open>substr(pos)\<close> throws when \<^verbatim>\<open>pos > size()\<close>; a handler catches
  it. \<open>invalid_read\<close> is the read of a byte that is not there: it is undefined behaviour, no
  exception is thrown and no handler catches it, so in the model it ends every computation
  that runs into it.
\<close>

datatype failure = out_of_range | invalid_read

text \<open>
  The consumers dereference \<^verbatim>\<open>format.cbegin()\<close> without looking at the size of the view, and
  this plain pointer read cannot throw, whatever the comment at the head of the source file
  says. On an empty view it reads the byte behind the view. Either there is such a byte
  (\<open>Stored c\<close>: the terminating NUL behind a string literal, or the next character of a longer
  buffer), or there is none that may be read (\<open>Unreadable\<close>: a character array without
  terminator, and every read past the end during constant evaluation). Every view the parser
  handles ends where the format string ends, so one parameter describes all these reads.
\<close>

datatype past_end = Unreadable | Stored char

fun front_char :: "past_end \<Rightarrow> string_view \<Rightarrow> failure + char" where
  "front_char pe (c # cs) = Inr c"
| "front_char Unreadable [] = Inl invalid_read"
| "front_char (Stored c) [] = Inr c"

definition substr :: "string_view \<Rightarrow> nat \<Rightarrow> failure + string_view" where
  "substr format pos = (if pos > length format then Inl out_of_range else Inr (drop pos format))"

record ReturnValue =
  is_valid :: bool
  type_matchers :: "PlaceholderType list"
  placeholder_length :: int

datatype Specifier =
    Specifier_d | Specifier_i | Specifier_u | Specifier_o | Specifier_x | Specifier_X
  | Specifier_f | Specifier_F | Specifier_e | Specifier_E | Specifier_g | Specifier_G
  | Specifier_a | Specifier_A | Specifier_c | Specifier_s | Specifier_p | Specifier_n

fun specifier_char :: "Specifier \<Rightarrow> char" where
  "specifier_char Specifier_d = CHR ''d''"
| "specifier_char Specifier_i = CHR ''i''"
| "specifier_char Specifier_u = CHR ''u''"
| "specifier_char Specifier_o = CHR ''o''"
| "specifier_char Specifier_x = CHR ''x''"
| "specifier_char Specifier_X = CHR ''X''"
| "specifier_char Specifier_f = CHR ''f''"
| "specifier_char Specifier_F = CHR ''F''"
| "specifier_char Specifier_e = CHR ''e''"
| "specifier_char Specifier_E = CHR ''E''"
| "specifier_char Specifier_g = CHR ''g''"
| "specifier_char Specifier_G = CHR ''G''"
| "specifier_char Specifier_a = CHR ''a''"
| "specifier_char Specifier_A = CHR ''A''"
| "specifier_char Specifier_c = CHR ''c''"
| "specifier_char Specifier_s = CHR ''s''"
| "specifier_char Specifier_p = CHR ''p''"
| "specifier_char Specifier_n = CHR ''n''"

section \<open>Character consumers\<close>

text \<open>
  A consumer returns \<open>Inl e\<close> when it ends without a value, \<open>Inr None\<close> for \<^verbatim>\<open>std::nullopt\<close>
  and \<open>Inr (Some v)\<close> for the view that is left.
\<close>

definition consume_character :: "past_end \<Rightarrow> string_view \<Rightarrow> char \<Rightarrow> failure + string_view option" where
  "consume_character pe format character =
     (case front_char pe format of
        Inl e \<Rightarrow> Inl e
      | Inr c \<Rightarrow>
          if c = character
          then (case substr format 1 of Inl e \<Rightarrow> Inl e | Inr v \<Rightarrow> Inr (Some v))
          else Inr None)"

text \<open>
  The comparison of plain \<^verbatim>\<open>char\<close> values is taken on the character codes. The only bounds
  the code passes are \<^verbatim>\<open>'0'\<close> and \<^verbatim>\<open>'9'\<close>, for which a signed and an unsigned \<^verbatim>\<open>char\<close> agree.
\<close>

definition consume_character_from_range ::
  "past_end \<Rightarrow> string_view \<Rightarrow> char \<Rightarrow> char \<Rightarrow> failure + string_view option" where
  "consume_character_from_range pe format first_character last_character =
     (case front_char pe format of
        Inl e \<Rightarrow> Inl e
      | Inr c \<Rightarrow>
          if (of_char first_character :: nat) \<le> of_char c \<and> (of_char c :: nat) \<le> of_char last_character
          then (case substr format 1 of Inl e \<Rightarrow> Inl e | Inr v \<Rightarrow> Inr (Some v))
          else Inr None)"

text \<open>
  The overload over a parameter pack: a fold of \<^verbatim>\<open>or\<close> over the pack, which is false without
  any read when the pack is empty.
\<close>

definition consume_character_from_set ::
  "past_end \<Rightarrow> string_view \<Rightarrow> char list \<Rightarrow> failure + string_view option" where
  "consume_character_from_set pe format characters =
     (if characters = [] then Inr None
      else case front_char pe format of
        Inl e \<Rightarrow> Inl e
      | Inr c \<Rightarrow>
          if c \<in> set characters
          then (case substr format 1 of Inl e \<Rightarrow> Inl e | Inr v \<Rightarrow> Inr (Some v))
          else Inr None)"

text \<open>The overload over a container: \<^verbatim>\<open>std::ranges::find\<close> reads the first character always.\<close>

definition consume_character_from_container ::
  "past_end \<Rightarrow> string_view \<Rightarrow> char list \<Rightarrow> failure + string_view option" where
  "consume_character_from_container pe format characters =
     (case front_char pe format of
        Inl e \<Rightarrow> Inl e
      | Inr c \<Rightarrow>
          if c \<in> set characters
          then (case substr format 1 of Inl e \<Rightarrow> Inl e | Inr v \<Rightarrow> Inr (Some v))
          else Inr None)"

text \<open>\<^verbatim>\<open>format.find(s) == 0\<close> holds exactly when the view starts with \<open>s\<close>.\<close>

definition consume_string :: "string_view \<Rightarrow> string \<Rightarrow> failure + string_view option" where
  "consume_string format string_to_consume =
     (if take (length string_to_consume) format = string_to_consume
      then (case substr format (length string_to_consume) of Inl e \<Rightarrow> Inl e | Inr v \<Rightarrow> Inr (Some v))
      else Inr None)"

text \<open>
  The repeated consumer calls itself for as long as the consumer hands back a view that
  differs from the one it was given. Nothing makes an arbitrary consumer stop, so the result
  is optional: \<open>None\<close> stands for a call that does not return.
\<close>

partial_function (option) consume_repeatedly ::
  "(string_view \<Rightarrow> failure + string_view option) \<Rightarrow> string_view
     \<Rightarrow> (failure + string_view option) option" where
  "consume_repeatedly consumer format =
     (case consumer format of
        Inl e \<Rightarrow> Some (Inl e)
      | Inr return_value \<Rightarrow>
          (case return_value of
             None \<Rightarrow> Some (Inr (Some format))
           | Some v \<Rightarrow> if v = format then Some (Inr (Some format)) else consume_repeatedly consumer v))"

declare consume_repeatedly.simps [code]

section \<open>Grammar sub-parsers\<close>

definition consume_start_character :: "past_end \<Rightarrow> string_view \<Rightarrow> failure + string_view option" where
  "consume_start_character pe format = consume_character pe format CHR ''%''"

text \<open>The parameter pack that \<^verbatim>\<open>consume_flags_if_any\<close> passes on.\<close>

definition flag_characters :: "char list" where
  "flag_characters = [CHR ''+'', CHR ''-'', CHR '' '', CHR ''#'', CHR ''0'']"

definition consume_flags_if_any :: "past_end \<Rightarrow> string_view \<Rightarrow> failure + string_view" where
  "consume_flags_if_any pe format =
     (case consume_character_from_set pe format flag_characters of
        Inl e \<Rightarrow> Inl e
      | Inr substring \<Rightarrow> Inr (case substring of None \<Rightarrow> format | Some v \<Rightarrow> v))"

definition consume_width_if_any ::
  "past_end \<Rightarrow> string_view \<Rightarrow> (failure + string_view \<times> PlaceholderType option) option" where
  "consume_width_if_any pe format =
     (case consume_character pe format CHR ''*'' of
        Inl e \<Rightarrow> Some (Inl e)
      | Inr (Some additional_argument_substring) \<Rightarrow>
          Some (Inr (additional_argument_substring, Some UnsignedIntType))
      | Inr None \<Rightarrow>
          (case consume_repeatedly (\<lambda>v. consume_character_from_range pe v CHR ''0'' CHR ''9'') format of
             None \<Rightarrow> None
           | Some (Inl e) \<Rightarrow> Some (Inl e)
           | Some (Inr (Some substring)) \<Rightarrow> Some (Inr (substring, None))
           | Some (Inr None) \<Rightarrow> Some (Inr (format, None))))"

definition consume_precision_if_any ::
  "past_end \<Rightarrow> string_view \<Rightarrow> (failure + string_view \<times> PlaceholderType option) option" where
  "consume_precision_if_any pe format =
     (case consume_character pe format CHR ''.'' of
        Inl e \<Rightarrow> Some (Inl e)
      | Inr None \<Rightarrow> Some (Inr (format, None))
      | Inr (Some substring_without_precision_specifier) \<Rightarrow>
          (case consume_character pe substring_without_precision_specifier CHR ''*'' of
             Inl e \<Rightarrow> Some (Inl e)
           | Inr (Some additional_argument_substring) \<Rightarrow>
               Some (Inr (additional_argument_substring, Some UnsignedIntType))
           | Inr None \<Rightarrow>
               (case consume_repeatedly (\<lambda>v. consume_character_from_range pe v CHR ''0'' CHR ''9'')
                       substring_without_precision_specifier of
                  None \<Rightarrow> None
                | Some (Inl e) \<Rightarrow> Some (Inl e)
                | Some (Inr (Some substring)) \<Rightarrow> Some (Inr (substring, None))
                | Some (Inr None) \<Rightarrow> Some (Inr (format, None)))))"

text \<open>
  The four different initializer lists of \<^verbatim>\<open>allowed_specifiers\<close> in \<^verbatim>\<open>consume_length_if_any\<close>:
  the one of \<^verbatim>\<open>hh\<close>, \<^verbatim>\<open>ll\<close> and the set \<^verbatim>\<open>h j z t\<close>, the one of \<^verbatim>\<open>l\<close>, the one of \<^verbatim>\<open>L\<close>,
  and the one without a length modifier.
\<close>

definition integer_specifiers :: "Specifier list" where
  "integer_specifiers =
     [Specifier_d, Specifier_i, Specifier_u, Specifier_o, Specifier_x, Specifier_X, Specifier_n]"

definition long_specifiers :: "Specifier list" where
  "long_specifiers =
     [Specifier_d, Specifier_i, Specifier_u, Specifier_o, Specifier_x, Specifier_X,
      Specifier_c, Specifier_s, Specifier_n]"

definition floating_specifiers :: "Specifier list" where
  "floating_specifiers =
     [Specifier_f, Specifier_F, Specifier_e, Specifier_E, Specifier_g, Specifier_G,
      Specifier_a, Specifier_A]"

definition all_specifiers :: "Specifier list" where
  "all_specifiers =
     [Specifier_d, Specifier_i, Specifier_u, Specifier_o, Specifier_x, Specifier_X,
      Specifier_f, Specifier_F, Specifier_e, Specifier_E, Specifier_g, Specifier_G,
      Specifier_a, Specifier_A, Specifier_c, Specifier_s, Specifier_p, Specifier_n]"

definition consume_length_if_any ::
  "past_end \<Rightarrow> string_view \<Rightarrow> failure + string_view \<times> Specifier list" where
  "consume_length_if_any pe format =
     (case consume_string format ''hh'' of
        Inl e \<Rightarrow> Inl e
      | Inr (Some substring) \<Rightarrow> Inr (substring, integer_specifiers)
      | Inr None \<Rightarrow>
     (case consume_string format ''ll'' of
        Inl e \<Rightarrow> Inl e
      | Inr (Some substring) \<Rightarrow> Inr (substring, integer_specifiers)
      | Inr None \<Rightarrow>
     (case consume_character pe format CHR ''l'' of
        Inl e \<Rightarrow> Inl e
      | Inr (Some substring) \<Rightarrow> Inr (substring, long_specifiers)
      | Inr None \<Rightarrow>
     (case consume_character pe format CHR ''L'' of
        Inl e \<Rightarrow> Inl e
      | Inr (Some substring) \<Rightarrow> Inr (substring, floating_specifiers)
      | Inr None \<Rightarrow>
     (case consume_character_from_set pe format [CHR ''h'', CHR ''j'', CHR ''z'', CHR ''t''] of
        Inl e \<Rightarrow> Inl e
      | Inr (Some substring) \<Rightarrow> Inr (substring, integer_specifiers)
      | Inr None \<Rightarrow> Inr (format, all_specifiers))))))"

definition specifiers_to_characters :: "Specifier list \<Rightarrow> char list" where
  "specifiers_to_characters specifiers = map specifier_char specifiers"

definition specifier_to_placeholder_type_matcher :: "char \<Rightarrow> PlaceholderType" where
  "specifier_to_placeholder_type_matcher specifier =
     (if specifier = CHR ''d'' \<or> specifier = CHR ''i'' then SignedIntType
      else if specifier = CHR ''u'' \<or> specifier = CHR ''o'' \<or> specifier = CHR ''x''
              \<or> specifier = CHR ''X'' then UnsignedIntType
      else if specifier = CHR ''f'' \<or> specifier = CHR ''F'' \<or> specifier = CHR ''e''
              \<or> specifier = CHR ''E'' \<or> specifier = CHR ''g'' \<or> specifier = CHR ''G''
              \<or> specifier = CHR ''a'' \<or> specifier = CHR ''A'' then FloatingType
      else if specifier = CHR ''c'' then CharType
      else if specifier = CHR ''s'' then StringType
      else if specifier = CHR ''p'' then PointerType
      else Unconstrained)"

definition consume_specifier ::
  "past_end \<Rightarrow> string_view \<Rightarrow> Specifier list \<Rightarrow> failure + string_view option \<times> PlaceholderType" where
  "consume_specifier pe format allowed_specifiers =
     (case consume_character_from_container pe format (specifiers_to_characters allowed_specifiers) of
        Inl e \<Rightarrow> Inl e
      | Inr None \<Rightarrow> Inr (None, Unconstrained)
      | Inr (Some _) \<Rightarrow>
          (case front_char pe format of
             Inl e \<Rightarrow> Inl e
           | Inr specifier_character \<Rightarrow>
               (case substr format 1 of
                  Inl e \<Rightarrow> Inl e
                | Inr v \<Rightarrow> Inr (Some v, specifier_to_placeholder_type_matcher specifier_character))))"

section \<open>Placeholder parser\<close>

definition invalid_placeholder :: ReturnValue where
  "invalid_placeholder = \<lparr>is_valid = False, type_matchers = [], placeholder_length = 0\<rparr>"

text \<open>
  The body of \<^verbatim>\<open>parse_first_placeholder\<close> is one \<^verbatim>\<open>try\<close> block whose handler, for
  \<^verbatim>\<open>std::exception\<close>, is empty: the exception of a stage leads to the final \<^verbatim>\<open>return\<close>, as a
  missing start character and a failed specifier do. An invalid read is no exception and
  passes the handler.
\<close>

definition catch_exception :: "failure \<Rightarrow> (failure + ReturnValue) option" where
  "catch_exception e =
     (case e of
        out_of_range \<Rightarrow> Some (Inr invalid_placeholder)
      | invalid_read \<Rightarrow> Some (Inl invalid_read))"

text \<open>
  \<^verbatim>\<open>std::distance\<close> between the starts of two views of one string is the difference of their
  lengths. The value \<open>None\<close> stands for a call that does not return.
\<close>

definition parse_first_placeholder :: "past_end \<Rightarrow> string_view \<Rightarrow> (failure + ReturnValue) option" where
  "parse_first_placeholder pe format =
     (case consume_start_character pe format of
        Inl e \<Rightarrow> catch_exception e
      | Inr None \<Rightarrow> Some (Inr invalid_placeholder)
      | Inr (Some post_start_substring) \<Rightarrow>
     (case consume_flags_if_any pe post_start_substring of
        Inl e \<Rightarrow> catch_exception e
      | Inr post_flags_substring \<Rightarrow>
     (case consume_width_if_any pe post_flags_substring of
        None \<Rightarrow> None
      | Some (Inl e) \<Rightarrow> catch_exception e
      | Some (Inr (post_width_substring, width_type_matcher)) \<Rightarrow>
     (case consume_precision_if_any pe post_width_substring of
        None \<Rightarrow> None
      | Some (Inl e) \<Rightarrow> catch_exception e
      | Some (Inr (post_precision_substring, precision_type_matcher)) \<Rightarrow>
     (case consume_length_if_any pe post_precision_substring of
        Inl e \<Rightarrow> catch_exception e
      | Inr (post_length_substring, allowed_specifiers) \<Rightarrow>
     (case consume_specifier pe post_length_substring allowed_specifiers of
        Inl e \<Rightarrow> catch_exception e
      | Inr (None, specifier_type_matcher) \<Rightarrow> Some (Inr invalid_placeholder)
      | Inr (Some post_specifier_substring, specifier_type_matcher) \<Rightarrow>
          Some (Inr \<lparr>is_valid = True,
                type_matchers =
                  (case width_type_matcher of None \<Rightarrow> [] | Some m \<Rightarrow> [m])
                  @ (case precision_type_matcher of None \<Rightarrow> [] | Some m \<Rightarrow> [m])
                  @ [specifier_type_matcher],
                placeholder_length =
                  int (length format) - int (length post_specifier_substring)\<rparr>)))))))"

section \<open>Format scanner\<close>

definition skip_escaped_starting_character :: "string_view \<Rightarrow> string_view" where
  "skip_escaped_starting_character format =
     (if take 2 format = ''%%'' then drop 2 format else format)"

text \<open>
  One pass through the body of the \<^verbatim>\<open>while\<close> loop, on the pair of the matchers collected so
  far and the view that is left. The loop itself is \<open>scan_loop\<close>, whose value \<open>None\<close> stands for
  a loop that does not end. The scanner has no handler, so what ends the placeholder parser
  without a value ends the scan.
\<close>

definition scan_iteration ::
  "past_end \<Rightarrow> PlaceholderType list \<times> string_view
     \<Rightarrow> (failure + PlaceholderType list \<times> string_view) option" where
  "scan_iteration pe st =
     (case parse_first_placeholder pe (snd st) of
        None \<Rightarrow> None
      | Some (Inl e) \<Rightarrow> Some (Inl e)
      | Some (Inr r) \<Rightarrow>
          if is_valid r
          then Some (Inr (fst st @ type_matchers r,
                     skip_escaped_starting_character (drop (nat (placeholder_length r)) (snd st))))
          else Some (Inr (fst st, skip_escaped_starting_character (drop 1 (snd st)))))"

partial_function (option) scan_loop ::
  "past_end \<Rightarrow> PlaceholderType list \<times> string_view \<Rightarrow> (failure + PlaceholderType list) option" where
  "scan_loop pe st =
     (if snd st = [] then Some (Inr (fst st))
      else case scan_iteration pe st of
             None \<Rightarrow> None
           | Some (Inl e) \<Rightarrow> Some (Inl e)
           | Some (Inr st') \<Rightarrow> scan_loop pe st')"

declare scan_loop.simps [code]

definition parse_format_to_placeholder_matchers ::
  "past_end \<Rightarrow> string_view \<Rightarrow> (failure + PlaceholderType list) option" where
  "parse_format_to_placeholder_matchers pe format =
     scan_loop pe ([], skip_escaped_starting_character format)"

text \<open>
  \<^verbatim>\<open>verify_format_with_arguments\<close> is a \<^verbatim>\<open>static_assert\<close> on the number of arguments; the
  model returns whether the assertion holds, for any list of arguments of one type standing
  for the pack.
\<close>

definition verify_format_with_arguments ::
  "past_end \<Rightarrow> string_view \<Rightarrow> 'a list \<Rightarrow> (failure + bool) option" where
  "verify_format_with_arguments pe format args =
     (case parse_format_to_placeholder_matchers pe format of
        None \<Rightarrow> None
      | Some (Inl e) \<Rightarrow> Some (Inl e)
      | Some (Inr matchers) \<Rightarrow> Some (Inr (length args = length matchers)))"

section \<open>Notions used in the statements\<close>

text \<open>The test of \<^verbatim>\<open>consume_character_from_range\<close> on one character.\<close>

definition in_range :: "char \<Rightarrow> char \<Rightarrow> char \<Rightarrow> bool" where
  "in_range lo hi c = ((of_char lo :: nat) \<le> of_char c \<and> (of_char c :: nat) \<le> of_char hi)"

definition is_digit :: "char \<Rightarrow> bool" where
  "is_digit c = in_range CHR ''0'' CHR ''9'' c"

text \<open>
  The length modifiers in the order \<^verbatim>\<open>consume_length_if_any\<close> tries them, each with the
  specifiers it allows.
\<close>

definition length_modifiers :: "(string \<times> Specifier list) list" where
  "length_modifiers =
     [(''hh'', integer_specifiers), (''ll'', integer_specifiers), (''l'', long_specifiers),
      (''L'', floating_specifiers), (''h'', integer_specifiers), (''j'', integer_specifiers),
      (''z'', integer_specifiers), (''t'', integer_specifiers), ([], all_specifiers)]"

text \<open>
  \<open>scan_iterations pe n st = Some q\<close> says that the \<^verbatim>\<open>while\<close> loop of the scanner, entered in
  state \<open>st\<close>, runs its body at least \<open>n\<close> times; \<open>q\<close> is the state after the \<open>n\<close>-th pass, or
  that which ends the \<open>n\<close>-th pass without a state.
\<close>

fun scan_iterations ::
  "past_end \<Rightarrow> nat \<Rightarrow> PlaceholderType list \<times> string_view
     \<Rightarrow> (failure + PlaceholderType list \<times> string_view) option" where
  "scan_iterations pe 0 st = Some (Inr st)"
| "scan_iterations pe (Suc n) st =
     (if snd st = [] then None
      else case scan_iteration pe st of
             None \<Rightarrow> None
           | Some (Inl e) \<Rightarrow> (if n = 0 then Some (Inl e) else None)
           | Some (Inr st') \<Rightarrow> scan_iterations pe n st')"

section \<open>Properties of the consumers\<close>

lemma substr_1_Cons [simp]: "substr (c # cs) (Suc 0) = Inr cs"
  by (simp add: substr_def)

lemma substr_1_Nil [simp]: "substr [] (Suc 0) = Inl out_of_range"
  by (simp add: substr_def)

lemma front_char_Nil_cases:
  "front_char pe [] = Inl invalid_read \<and> pe = Unreadable \<or> (\<exists>c. front_char pe [] = Inr c \<and> pe = Stored c)"
  by (cases pe) simp_all

lemma consume_character_Cons [simp]:
  "consume_character pe (c # cs) ch = (if c = ch then Inr (Some cs) else Inr None)"
  by (simp add: consume_character_def)

lemma consume_character_Nil: "consume_character pe [] ch \<noteq> Inr (Some v)"
  by (cases pe) (simp_all add: consume_character_def)

lemma consume_character_Some_iff:
  "consume_character pe format ch = Inr (Some v) \<longleftrightarrow> format = ch # v"
  by (cases format) (auto simp: consume_character_Nil)

lemma consume_character_from_range_Cons [simp]:
  "consume_character_from_range pe (c # cs) lo hi = (if in_range lo hi c then Inr (Some cs) else Inr None)"
  by (simp add: consume_character_from_range_def in_range_def)

lemma consume_character_from_range_Nil:
  "consume_character_from_range pe [] lo hi =
     (case pe of Unreadable \<Rightarrow> Inl invalid_read
      | Stored c \<Rightarrow> if in_range lo hi c then Inl out_of_range else Inr None)"
  by (cases pe) (simp_all add: consume_character_from_range_def in_range_def)

lemma consume_character_from_set_Cons [simp]:
  "consume_character_from_set pe (c # cs) chs = (if c \<in> set chs then Inr (Some cs) else Inr None)"
  by (auto simp add: consume_character_from_set_def)

lemma consume_character_from_set_Nil: "consume_character_from_set pe [] chs \<noteq> Inr (Some v)"
  by (cases pe) (simp_all add: consume_character_from_set_def)

lemma consume_character_from_set_Some_iff:
  "consume_character_from_set pe format chs = Inr (Some v) \<longleftrightarrow> (\<exists>c. format = c # v \<and> c \<in> set chs)"
  by (cases format) (auto simp: consume_character_from_set_Nil)

lemma consume_character_from_container_Cons [simp]:
  "consume_character_from_container pe (c # cs) chs = (if c \<in> set chs then Inr (Some cs) else Inr None)"
  by (auto simp add: consume_character_from_container_def)

lemma consume_character_from_container_Nil: "consume_character_from_container pe [] chs \<noteq> Inr (Some v)"
  by (cases pe) (simp_all add: consume_character_from_container_def)

lemma consume_string_Some_iff:
  "consume_string format s = Inr (Some v) \<longleftrightarrow> format = s @ v"
proof
  assume "consume_string format s = Inr (Some v)"
  then have "take (length s) format = s" and "v = drop (length s) format"
    by (auto simp: consume_string_def substr_def split: if_splits)
  then show "format = s @ v"
    by (metis append_take_drop_id)
next
  assume "format = s @ v"
  then show "consume_string format s = Inr (Some v)"
    by (simp add: consume_string_def substr_def)
qed

lemma consume_string_not_Inl: "consume_string format s \<noteq> Inl e"
  unfolding consume_string_def substr_def
  by (auto dest: arg_cong [where f = length])

lemma consume_repeatedly_range:
  "consume_repeatedly (\<lambda>v. consume_character_from_range pe v lo hi) format =
     Some (case dropWhile (in_range lo hi) format of
             [] \<Rightarrow> (case pe of Unreadable \<Rightarrow> Inl invalid_read
                    | Stored c \<Rightarrow> if in_range lo hi c then Inl out_of_range else Inr (Some []))
           | c # cs \<Rightarrow> Inr (Some (c # cs)))"
proof (induction format)
  case Nil
  show ?case
    by (subst consume_repeatedly.simps) (simp add: consume_character_from_range_Nil split: past_end.splits)
next
  case (Cons c cs)
  show ?case
    by (subst consume_repeatedly.simps) (simp add: Cons.IH)
qed

section \<open>Properties of the sub-parsers\<close>

lemma consume_flags_if_any_Cons [simp]:
  "consume_flags_if_any pe (c # cs) = Inr (if c \<in> set flag_characters then cs else c # cs)"
  by (simp add: consume_flags_if_any_def)

lemma consume_flags_if_any_Nil:
  "consume_flags_if_any pe [] = Inr v \<Longrightarrow> v = []"
  by (cases pe) (auto simp: consume_flags_if_any_def consume_character_from_set_def split: if_splits)

lemma consume_flags_if_any_Inr:
  assumes "consume_flags_if_any pe format = Inr v"
  shows "\<exists>fl. format = fl @ v \<and> (fl = [] \<or> (\<exists>c \<in> set flag_characters. fl = [c]))"
proof (cases format)
  case Nil
  with assms show ?thesis by (auto dest: consume_flags_if_any_Nil)
next
  case (Cons c cs)
  with assms show ?thesis by (auto split: if_splits)
qed

lemma dropWhile_decompose:
  "\<exists>ds. xs = ds @ dropWhile P xs \<and> list_all P ds"
  by (rule exI [of _ "takeWhile P xs"]) (auto simp: list_all_iff dest: set_takeWhileD)

lemma digit_run_Inr:
  assumes "consume_repeatedly (\<lambda>v. consume_character_from_range pe v lo hi) format = Some (Inr r)"
  shows "r = Some (dropWhile (in_range lo hi) format)"
proof (cases "dropWhile (in_range lo hi) format")
  case Nil
  from assms [unfolded consume_repeatedly_range Nil] have "r = Some []"
    by (cases pe) (auto split: if_splits)
  then show ?thesis by (simp only: Nil)
next
  case (Cons c cs)
  from assms [unfolded consume_repeatedly_range Cons] have "r = Some (c # cs)"
    by simp
  then show ?thesis by (simp only: Cons)
qed

lemma digit_run_total:
  "\<exists>r. consume_repeatedly (\<lambda>v. consume_character_from_range pe v lo hi) format = Some r"
  by (simp add: consume_repeatedly_range)

lemma consume_width_if_any_total: "\<exists>r. consume_width_if_any pe format = Some r"
proof -
  obtain r where "consume_repeatedly (\<lambda>v. consume_character_from_range pe v CHR ''0'' CHR ''9'') format = Some r"
    using digit_run_total by blast
  then show ?thesis
    by (simp add: consume_width_if_any_def split: sum.splits option.splits)
qed

lemma consume_width_if_any_Inr:
  assumes "consume_width_if_any pe format = Some (Inr (v, m))"
  shows "\<exists>wd. format = wd @ v \<and>
           (wd = ''*'' \<and> m = Some UnsignedIntType
            \<or> list_all (in_range CHR ''0'' CHR ''9'') wd \<and> m = None)"
proof (cases "consume_character pe format CHR ''*''")
  case (Inl e)
  with assms show ?thesis by (simp add: consume_width_if_any_def)
next
  case (Inr r)
  show ?thesis
  proof (cases r)
    case (Some s)
    with Inr assms have "format = CHR ''*'' # v" "m = Some UnsignedIntType"
      by (auto simp: consume_width_if_any_def consume_character_Some_iff)
    then show ?thesis by auto
  next
    case None
    with Inr assms have "v = dropWhile (in_range CHR ''0'' CHR ''9'') format" "m = None"
      by (auto simp: consume_width_if_any_def split: option.splits sum.splits dest: digit_run_Inr)
    then show ?thesis
      using dropWhile_decompose [of format "in_range CHR ''0'' CHR ''9''"] by auto
  qed
qed

lemma consume_precision_if_any_total: "\<exists>r. consume_precision_if_any pe format = Some r"
proof (cases "consume_character pe format CHR ''.''")
  case (Inl e)
  then show ?thesis by (simp add: consume_precision_if_any_def)
next
  case (Inr r)
  show ?thesis
  proof (cases r)
    case None
    with Inr show ?thesis by (simp add: consume_precision_if_any_def)
  next
    case (Some t)
    obtain q where q: "consume_repeatedly (\<lambda>v. consume_character_from_range pe v CHR ''0'' CHR ''9'') t = Some q"
      using digit_run_total by blast
    show ?thesis
    proof (cases "consume_character pe t CHR ''*''")
      case (Inl e)
      with Inr Some show ?thesis by (simp add: consume_precision_if_any_def)
    next
      case star: (Inr r')
      with Inr Some q show ?thesis
        by (cases r') (simp_all add: consume_precision_if_any_def split: sum.splits option.splits)
    qed
  qed
qed

lemma consume_precision_if_any_Inr:
  assumes "consume_precision_if_any pe format = Some (Inr (v, m))"
  shows "\<exists>pr. format = pr @ v \<and>
           (pr = ''.*'' \<and> m = Some UnsignedIntType
            \<or> m = None \<and> (pr = [] \<or> (\<exists>ds. pr = CHR ''.'' # ds \<and> list_all (in_range CHR ''0'' CHR ''9'') ds)))"
proof (cases "consume_character pe format CHR ''.''")
  case (Inl e)
  with assms show ?thesis by (simp add: consume_precision_if_any_def)
next
  case (Inr r)
  show ?thesis
  proof (cases r)
    case None
    with Inr assms show ?thesis by (simp add: consume_precision_if_any_def)
  next
    case (Some t)
    with Inr have format: "format = CHR ''.'' # t"
      by (simp add: consume_character_Some_iff)
    show ?thesis
    proof (cases "consume_character pe t CHR ''*''")
      case (Inl e)
      with Inr Some assms show ?thesis by (simp add: consume_precision_if_any_def)
    next
      case star: (Inr r')
      show ?thesis
      proof (cases r')
        case (Some s)
        with star have "t = CHR ''*'' # s"
          by (simp add: consume_character_Some_iff)
        moreover from Some star Inr \<open>r = Some t\<close> assms have "s = v" "m = Some UnsignedIntType"
          by (simp_all add: consume_precision_if_any_def)
        ultimately show ?thesis using format by simp
      next
        case None
        obtain q where q: "consume_repeatedly (\<lambda>v. consume_character_from_range pe v CHR ''0'' CHR ''9'') t = Some q"
          using digit_run_total by blast
        with None star Inr \<open>r = Some t\<close> assms
        have "q = Inr (Some v) \<or> q = Inr None" and m: "m = None"
          by (auto simp add: consume_precision_if_any_def split: sum.splits option.splits)
        with q have v: "v = dropWhile (in_range CHR ''0'' CHR ''9'') t"
          using digit_run_Inr by fastforce
        obtain ds where "t = ds @ dropWhile (in_range CHR ''0'' CHR ''9'') t"
          and "list_all (in_range CHR ''0'' CHR ''9'') ds"
          using dropWhile_decompose [of t "in_range CHR ''0'' CHR ''9''"] by blast
        with v m format have "format = (CHR ''.'' # ds) @ v" and "m = None"
          and "list_all (in_range CHR ''0'' CHR ''9'') ds"
          by simp_all
        then show ?thesis by blast
      qed
    qed
  qed
qed

lemma consume_specifier_Some:
  assumes "consume_specifier pe format allowed = Inr (Some v, m)"
  shows "\<exists>c. format = c # v \<and> c \<in> set (specifiers_to_characters allowed)
           \<and> m = specifier_to_placeholder_type_matcher c"
proof (cases format)
  case Nil
  with assms show ?thesis
    by (auto simp: consume_specifier_def consume_character_from_container_Nil split: sum.splits option.splits)
next
  case (Cons c cs)
  with assms show ?thesis
    by (simp add: consume_specifier_def split: if_splits)
qed

lemma consume_length_if_any_Inr:
  assumes "consume_length_if_any pe format = Inr (v, allowed)"
  shows "\<exists>ln. format = ln @ v \<and> (ln, allowed) \<in> set length_modifiers"
proof -
  have "consume_string format ''hh'' = Inr (Some v) \<and> allowed = integer_specifiers
      \<or> consume_string format ''ll'' = Inr (Some v) \<and> allowed = integer_specifiers
      \<or> consume_character pe format CHR ''l'' = Inr (Some v) \<and> allowed = long_specifiers
      \<or> consume_character pe format CHR ''L'' = Inr (Some v) \<and> allowed = floating_specifiers
      \<or> consume_character_from_set pe format [CHR ''h'', CHR ''j'', CHR ''z'', CHR ''t''] = Inr (Some v)
          \<and> allowed = integer_specifiers
      \<or> format = v \<and> allowed = all_specifiers"
    using assms unfolding consume_length_if_any_def
    by (simp split: sum.splits option.splits)
  then consider "format = ''hh'' @ v" "allowed = integer_specifiers"
    | "format = ''ll'' @ v" "allowed = integer_specifiers"
    | "format = ''l'' @ v" "allowed = long_specifiers"
    | "format = ''L'' @ v" "allowed = floating_specifiers"
    | c where "format = [c] @ v" "c \<in> set ''hjzt''" "allowed = integer_specifiers"
    | "format = [] @ v" "allowed = all_specifiers"
    unfolding consume_string_Some_iff consume_character_Some_iff consume_character_from_set_Some_iff
    by auto
  then show ?thesis
  proof cases
    case 5
    then have "([c], allowed) \<in> set length_modifiers"
      by (auto simp: length_modifiers_def)
    with 5 show ?thesis by blast
  qed (unfold length_modifiers_def, (rule exI, rule conjI, assumption, simp)+)
qed





lemma consume_length_if_any_Inl: "consume_length_if_any pe v = Inl e \<Longrightarrow> v = []"
  by (cases v) (auto simp: consume_length_if_any_def consume_string_def substr_def
      split: if_splits)

lemma consume_specifier_Inl: "consume_specifier pe v allowed = Inl e \<Longrightarrow> v = []"
  by (cases v) (auto simp: consume_specifier_def split: if_splits)

lemma consume_width_if_any_default:
  assumes "c \<noteq> CHR ''*''" and "\<not> is_digit c"
  shows "consume_width_if_any pe (c # cs) = Some (Inr (c # cs, None))"
  using assms by (simp add: consume_width_if_any_def consume_repeatedly_range is_digit_def)

lemma consume_precision_if_any_default:
  "c \<noteq> CHR ''.'' \<Longrightarrow> consume_precision_if_any pe (c # cs) = Some (Inr (c # cs, None))"
  by (simp add: consume_precision_if_any_def)

lemma consume_specifier_Cons:
  "consume_specifier pe (c # cs) allowed =
     (if c \<in> set (specifiers_to_characters allowed)
      then Inr (Some cs, specifier_to_placeholder_type_matcher c) else Inr (None, Unconstrained))"
  by (simp add: consume_specifier_def)

section \<open>Properties of the placeholder parser\<close>

lemma catch_exception_Inr: "catch_exception e = Some (Inr r) \<Longrightarrow> r = invalid_placeholder"
  by (cases e) (simp_all add: catch_exception_def)

lemma catch_exception_total: "\<exists>q. catch_exception e = Some q"
  by (cases e) (simp_all add: catch_exception_def)

lemma catch_exception_Inl: "catch_exception e = Some (Inl e') \<Longrightarrow> e = invalid_read \<and> e' = invalid_read"
  by (cases e) (simp_all add: catch_exception_def)

lemma parse_first_placeholder_cases:
  assumes "parse_first_placeholder pe format = Some (Inr r)"
  obtains (invalid) "r = invalid_placeholder"
  | (valid) s1 s2 s3 wm s4 pm s5 allowed s6 sm where
      "consume_start_character pe format = Inr (Some s1)"
      "consume_flags_if_any pe s1 = Inr s2"
      "consume_width_if_any pe s2 = Some (Inr (s3, wm))"
      "consume_precision_if_any pe s3 = Some (Inr (s4, pm))"
      "consume_length_if_any pe s4 = Inr (s5, allowed)"
      "consume_specifier pe s5 allowed = Inr (Some s6, sm)"
      "r = \<lparr>is_valid = True,
            type_matchers = (case wm of None \<Rightarrow> [] | Some m \<Rightarrow> [m]) @ (case pm of None \<Rightarrow> [] | Some m \<Rightarrow> [m]) @ [sm],
            placeholder_length = int (length format) - int (length s6)\<rparr>"
  using assms unfolding parse_first_placeholder_def
  by (auto split: sum.splits option.splits prod.splits dest: catch_exception_Inr)

lemma parse_first_placeholder_total: "\<exists>q. parse_first_placeholder pe format = Some q"
proof -
  have w: "consume_width_if_any pe v \<noteq> None" for v
    using consume_width_if_any_total [of pe v] by auto
  have p: "consume_precision_if_any pe v \<noteq> None" for v
    using consume_precision_if_any_total [of pe v] by auto
  have c: "catch_exception e \<noteq> None" for e
    using catch_exception_total [of e] by auto
  show ?thesis
    unfolding parse_first_placeholder_def
    by (auto simp: w p catch_exception_total split: sum.splits option.splits prod.splits)
qed

text \<open>An invalid read happens only on an empty view with no byte behind it.\<close>

lemma front_char_invalid_read: "front_char pe v = Inl e \<Longrightarrow> pe = Unreadable \<and> v = [] \<and> e = invalid_read"
  by (cases v; cases pe) simp_all

lemma consume_character_Stored: "consume_character (Stored c) v ch \<noteq> Inl invalid_read"
  by (cases v) (simp_all add: consume_character_def)

lemma consume_character_from_set_Stored: "consume_character_from_set (Stored c) v chs \<noteq> Inl invalid_read"
  by (cases v) (simp_all add: consume_character_from_set_def)

lemma consume_character_from_container_Stored:
  "consume_character_from_container (Stored c) v chs \<noteq> Inl invalid_read"
  by (cases v) (simp_all add: consume_character_from_container_def)

lemma digit_run_Stored:
  "consume_repeatedly (\<lambda>v. consume_character_from_range (Stored c) v lo hi) format \<noteq> Some (Inl invalid_read)"
  unfolding consume_repeatedly_range by (simp split: list.splits)

lemma consume_flags_if_any_Stored: "consume_flags_if_any (Stored c) v \<noteq> Inl invalid_read"
  using consume_character_from_set_Stored [of c v flag_characters]
  by (auto simp: consume_flags_if_any_def split: sum.splits)

lemma consume_width_if_any_Stored: "consume_width_if_any (Stored c) v \<noteq> Some (Inl invalid_read)"
  using consume_character_Stored [of c v "CHR ''*''"]
    digit_run_Stored [of c "CHR ''0''" "CHR ''9''" v]
  by (auto simp: consume_width_if_any_def split: sum.splits option.splits)

lemma consume_precision_if_any_Stored: "consume_precision_if_any (Stored c) v \<noteq> Some (Inl invalid_read)"
  by (auto simp: consume_precision_if_any_def consume_character_Stored digit_run_Stored
      split: sum.splits option.splits)

lemma consume_length_if_any_Stored: "consume_length_if_any (Stored c) v \<noteq> Inl invalid_read"
proof
  assume a: "consume_length_if_any (Stored c) v = Inl invalid_read"
  then have "v = []" by (rule consume_length_if_any_Inl)
  with a show False
    by (auto simp: consume_length_if_any_def consume_string_def consume_character_def
        consume_character_from_set_def split: if_splits)
qed

lemma consume_specifier_Stored: "consume_specifier (Stored c) v allowed \<noteq> Inl invalid_read"
  by (cases v) (auto simp: consume_specifier_def consume_character_from_container_def split: if_splits)

lemma parse_first_placeholder_Stored: "\<exists>r. parse_first_placeholder (Stored c) format = Some (Inr r)"
proof -
  obtain q where q: "parse_first_placeholder (Stored c) format = Some q"
    using parse_first_placeholder_total by blast
  have "q \<noteq> Inl e" for e
  proof
    assume "q = Inl e"
    with q have "parse_first_placeholder (Stored c) format = Some (Inl e)" by simp
    then show False
      unfolding parse_first_placeholder_def consume_start_character_def
      using consume_character_Stored [of c format "CHR ''%''"]
      by (auto simp: consume_flags_if_any_Stored consume_width_if_any_Stored
          consume_precision_if_any_Stored consume_length_if_any_Stored consume_specifier_Stored
          split: sum.splits option.splits prod.splits dest!: catch_exception_Inl)
  qed
  with q show ?thesis by (cases q) auto
qed

lemma parse_first_placeholder_Inl:
  assumes "parse_first_placeholder pe format = Some (Inl e)"
  shows "pe = Unreadable \<and> e = invalid_read"
proof (cases pe)
  case Unreadable
  from assms have "e = invalid_read"
    unfolding parse_first_placeholder_def
    by (auto split: sum.splits option.splits prod.splits dest!: catch_exception_Inl)
  with Unreadable show ?thesis by simp
next
  case (Stored c)
  with assms parse_first_placeholder_Stored [of c format] show ?thesis by auto
qed

lemma parse_first_placeholder_invalid:
  assumes "parse_first_placeholder pe format = Some (Inr r)" and "\<not> is_valid r"
  shows "r = invalid_placeholder"
  using assms(1)
proof (cases rule: parse_first_placeholder_cases)
  case invalid
  then show ?thesis .
next
  case valid
  with assms(2) show ?thesis by simp
qed

lemma parse_first_placeholder_valid:
  assumes "parse_first_placeholder pe format = Some (Inr r)" and "is_valid r"
  shows "\<exists>fl wd pr ln allowed sp rest.
           format = CHR ''%'' # fl @ wd @ pr @ ln @ sp # rest
         \<and> (fl = [] \<or> (\<exists>c \<in> set flag_characters. fl = [c]))
         \<and> (wd = ''*'' \<or> list_all is_digit wd)
         \<and> (pr = [] \<or> pr = ''.*'' \<or> (\<exists>ds. pr = CHR ''.'' # ds \<and> list_all is_digit ds))
         \<and> (ln, allowed) \<in> set length_modifiers
         \<and> sp \<in> set (specifiers_to_characters allowed)
         \<and> type_matchers r =
               (if wd = ''*'' then [UnsignedIntType] else [])
             @ (if pr = ''.*'' then [UnsignedIntType] else [])
             @ [specifier_to_placeholder_type_matcher sp]
         \<and> placeholder_length r = int (length (CHR ''%'' # fl @ wd @ pr @ ln @ [sp]))"
  using assms(1)
proof (cases rule: parse_first_placeholder_cases)
  case invalid
  with assms(2) show ?thesis by (simp add: invalid_placeholder_def)
next
  case (valid s1 s2 s3 wm s4 pm s5 allowed s6 sm)
  from valid(1) have f1: "format = CHR ''%'' # s1"
    by (simp add: consume_start_character_def consume_character_Some_iff)
  from consume_flags_if_any_Inr [OF valid(2)] obtain fl where
    fl: "s1 = fl @ s2" "fl = [] \<or> (\<exists>c \<in> set flag_characters. fl = [c])" by blast
  from consume_width_if_any_Inr [OF valid(3)] obtain wd where
    wd: "s2 = wd @ s3" "wd = ''*'' \<and> wm = Some UnsignedIntType \<or> list_all is_digit wd \<and> wm = None"
    unfolding is_digit_def by blast
  from consume_precision_if_any_Inr [OF valid(4)] obtain pr where
    pr: "s3 = pr @ s4" "pr = ''.*'' \<and> pm = Some UnsignedIntType
            \<or> pm = None \<and> (pr = [] \<or> (\<exists>ds. pr = CHR ''.'' # ds \<and> list_all is_digit ds))"
    unfolding is_digit_def by blast
  from consume_length_if_any_Inr [OF valid(5)] obtain ln where
    ln: "s4 = ln @ s5" "(ln, allowed) \<in> set length_modifiers" by blast
  from consume_specifier_Some [OF valid(6)] obtain sp where
    sp: "s5 = sp # s6" "sp \<in> set (specifiers_to_characters allowed)"
        "sm = specifier_to_placeholder_type_matcher sp" by blast
  have star_not_digit: "\<not> list_all is_digit ''*''"
    by (simp add: is_digit_def in_range_def)
  have wm: "(case wm of None \<Rightarrow> [] | Some m \<Rightarrow> [m]) = (if wd = ''*'' then [UnsignedIntType] else [])"
    using wd(2) star_not_digit by auto
  have dotstar: "\<not> (\<exists>ds. ''.*'' = CHR ''.'' # ds \<and> list_all is_digit ds)"
    by (simp add: is_digit_def in_range_def)
  have pm: "(case pm of None \<Rightarrow> [] | Some m \<Rightarrow> [m]) = (if pr = ''.*'' then [UnsignedIntType] else [])"
    using pr(2) dotstar by auto
  have 1: "format = CHR ''%'' # fl @ wd @ pr @ ln @ sp # s6"
    using f1 fl(1) wd(1) pr(1) ln(1) sp(1) by simp
  have 2: "type_matchers r = (if wd = ''*'' then [UnsignedIntType] else [])
             @ (if pr = ''.*'' then [UnsignedIntType] else [])
             @ [specifier_to_placeholder_type_matcher sp]"
    using valid(7) wm pm sp(3) by simp
  have 3: "placeholder_length r = int (length (CHR ''%'' # fl @ wd @ pr @ ln @ [sp]))"
    using valid(7) 1 by simp
  have 4: "wd = ''*'' \<or> list_all is_digit wd" using wd(2) by blast
  have 5: "pr = [] \<or> pr = ''.*'' \<or> (\<exists>ds. pr = CHR ''.'' # ds \<and> list_all is_digit ds)"
    using pr(2) by blast
  show ?thesis
    using 1 fl(2) 4 5 ln(2) sp(2) 2 3 by blast
qed

section \<open>Properties of the scanner\<close>

lemma parse_first_placeholder_length:
  assumes "parse_first_placeholder pe format = Some (Inr r)" and "is_valid r"
  shows "2 \<le> placeholder_length r \<and> placeholder_length r \<le> int (length format)"
proof -
  from parse_first_placeholder_valid [OF assms] obtain fl wd pr ln sp rest where
    "format = CHR ''%'' # fl @ wd @ pr @ ln @ sp # rest"
    "placeholder_length r = int (length (CHR ''%'' # fl @ wd @ pr @ ln @ [sp]))"
    by blast
  then show ?thesis by simp
qed

lemma length_skip_escaped: "length (skip_escaped_starting_character v) \<le> length v"
  by (simp add: skip_escaped_starting_character_def)

lemma scan_iteration_advance:
  assumes "v \<noteq> []" and "parse_first_placeholder pe v = Some (Inr r)"
  shows "\<exists>k. k = (if is_valid r then nat (placeholder_length r) else 1)
           \<and> 1 \<le> k \<and> k \<le> length v
           \<and> scan_iteration pe (ms, v)
               = Some (Inr (ms @ (if is_valid r then type_matchers r else []),
                            skip_escaped_starting_character (drop k v)))"
proof (cases "is_valid r")
  case True
  with assms(2) have "2 \<le> placeholder_length r" "placeholder_length r \<le> int (length v)"
    using parse_first_placeholder_length by blast+
  then have "1 \<le> nat (placeholder_length r)" "nat (placeholder_length r) \<le> length v"
    by simp_all
  with assms(2) True show ?thesis by (simp add: scan_iteration_def)
next
  case False
  from assms(1) have "1 \<le> length v" by (cases v) simp_all
  with assms(2) False show ?thesis by (simp add: scan_iteration_def)
qed

lemma scan_iteration_Inl:
  "parse_first_placeholder pe v = Some (Inl e) \<Longrightarrow> scan_iteration pe (ms, v) = Some (Inl e)"
  by (simp add: scan_iteration_def)

lemma scan_iteration_shrinks:
  assumes "v \<noteq> []"
  shows "scan_iteration pe (ms, v) = Some (Inl invalid_read) \<and> pe = Unreadable
       \<or> (\<exists>ms' v'. scan_iteration pe (ms, v) = Some (Inr (ms', v')) \<and> length v' < length v)"
proof -
  obtain q where q: "parse_first_placeholder pe v = Some q"
    using parse_first_placeholder_total by blast
  show ?thesis
  proof (cases q)
    case (Inl e)
    with q have "pe = Unreadable \<and> e = invalid_read"
      using parse_first_placeholder_Inl by blast
    with q Inl show ?thesis by (simp add: scan_iteration_Inl)
  next
    case (Inr r)
    with q obtain k where k: "1 \<le> k" "k \<le> length v"
      "scan_iteration pe (ms, v)
         = Some (Inr (ms @ (if is_valid r then type_matchers r else []),
                      skip_escaped_starting_character (drop k v)))"
      using scan_iteration_advance [OF assms, of pe r ms] by blast
    from k(1,2) assms have "length (drop k v) < length v" by simp
    then have "length (skip_escaped_starting_character (drop k v)) < length v"
      using length_skip_escaped le_less_trans by blast
    with k(3) show ?thesis by blast
  qed
qed

lemma scan_loop_Nil [simp]: "scan_loop pe (ms, []) = Some (Inr ms)"
  by (subst scan_loop.simps) simp

lemma scan_loop_Cons:
  "scan_loop pe (ms, c # cs) =
     (case scan_iteration pe (ms, c # cs) of
        None \<Rightarrow> None
      | Some (Inl e) \<Rightarrow> Some (Inl e)
      | Some (Inr st') \<Rightarrow> scan_loop pe st')"
  by (subst scan_loop.simps) simp

lemma scan_loop_terminates:
  "\<exists>n q. n \<le> length v \<and> scan_iterations pe n (ms, v) = Some q
        \<and> ((\<exists>ms'. q = Inr (ms', []) \<and> scan_loop pe (ms, v) = Some (Inr ms'))
           \<or> q = Inl invalid_read \<and> pe = Unreadable \<and> scan_loop pe (ms, v) = Some (Inl invalid_read))"
proof (induction "length v" arbitrary: ms v rule: less_induct)
  case less
  show ?case
  proof (cases v)
    case Nil
    then have "scan_iterations pe 0 (ms, v) = Some (Inr (ms, []))" "scan_loop pe (ms, v) = Some (Inr ms)"
      by simp_all
    then show ?thesis by blast
  next
    case (Cons c cs)
    then have "v \<noteq> []" by simp
    from scan_iteration_shrinks [OF this, of pe ms]
    consider "scan_iteration pe (ms, v) = Some (Inl invalid_read)" "pe = Unreadable"
      | ms1 v1 where "scan_iteration pe (ms, v) = Some (Inr (ms1, v1))" "length v1 < length v"
      by blast
    then show ?thesis
    proof cases
      case 1
      with Cons have "scan_iterations pe (Suc 0) (ms, v) = Some (Inl invalid_read)"
        "scan_loop pe (ms, v) = Some (Inl invalid_read)"
        by (simp_all add: scan_loop_Cons)
      moreover from Cons have "Suc 0 \<le> length v" by simp
      ultimately show ?thesis using 1(2) by blast
    next
      case 2
      from less [OF 2(2), of ms1] obtain n q where
        n: "n \<le> length v1" "scan_iterations pe n (ms1, v1) = Some q"
          "(\<exists>ms'. q = Inr (ms', []) \<and> scan_loop pe (ms1, v1) = Some (Inr ms'))
           \<or> q = Inl invalid_read \<and> pe = Unreadable \<and> scan_loop pe (ms1, v1) = Some (Inl invalid_read)"
        by blast
      from Cons 2(1) n(2) have "scan_iterations pe (Suc n) (ms, v) = Some q"
        by simp
      moreover from Cons 2(1) have "scan_loop pe (ms, v) = scan_loop pe (ms1, v1)"
        by (simp add: scan_loop_Cons)
      moreover from n(1) 2(2) have "Suc n \<le> length v" by simp
      ultimately show ?thesis using n(3) by metis
    qed
  qed
qed

lemma scan_loop_terminates_Stored:
  "\<exists>n ms'. n \<le> length v \<and> scan_iterations (Stored c) n (ms, v) = Some (Inr (ms', []))
        \<and> scan_loop (Stored c) (ms, v) = Some (Inr ms')"
  using scan_loop_terminates [of v "Stored c" ms] by auto

lemma parse_first_placeholder_no_percent:
  "c \<noteq> CHR ''%'' \<Longrightarrow> parse_first_placeholder pe (c # cs) = Some (Inr invalid_placeholder)"
  by (simp add: parse_first_placeholder_def consume_start_character_def)

lemma scan_iteration_literal:
  "c \<noteq> CHR ''%'' \<Longrightarrow> scan_iteration pe (ms, c # cs) = Some (Inr (ms, skip_escaped_starting_character cs))"
  by (simp add: scan_iteration_def parse_first_placeholder_no_percent invalid_placeholder_def)

lemmas eval_simps =
  parse_format_to_placeholder_matchers_def scan_loop_Cons scan_iteration_def
  parse_first_placeholder_def consume_start_character_def consume_width_if_any_def
  consume_precision_if_any_def consume_length_if_any_def consume_specifier_def
  consume_string_def substr_def consume_repeatedly_range in_range_def
  skip_escaped_starting_character_def flag_characters_def invalid_placeholder_def
  catch_exception_def
  specifiers_to_characters_def specifier_to_placeholder_type_matcher_def
  integer_specifiers_def long_specifiers_def floating_specifiers_def all_specifiers_def

section \<open>Further properties of the parsers\<close>

lemma parse_first_placeholder_lone_percent:
  "parse_first_placeholder (Stored c) ''%'' = Some (Inr invalid_placeholder)"
proof -
  obtain r where r: "parse_first_placeholder (Stored c) ''%'' = Some (Inr r)"
    using parse_first_placeholder_Stored by blast
  have "\<not> is_valid r"
    using parse_first_placeholder_length [OF r] by auto
  with r show ?thesis
    using parse_first_placeholder_invalid by blast
qed

lemma parse_first_placeholder_lone_percent_Unreadable:
  "parse_first_placeholder Unreadable ''%'' = Some (Inl invalid_read)"
  by (simp add: parse_first_placeholder_def consume_start_character_def consume_flags_if_any_def
      consume_character_from_set_def flag_characters_def catch_exception_def)

lemma parse_format_total: "\<exists>q. parse_format_to_placeholder_matchers pe format = Some q"
  unfolding parse_format_to_placeholder_matchers_def
  using scan_loop_terminates [of "skip_escaped_starting_character format" pe "[]"] by blast

lemma parse_format_Stored: "\<exists>ms. parse_format_to_placeholder_matchers (Stored c) format = Some (Inr ms)"
  unfolding parse_format_to_placeholder_matchers_def
  using scan_loop_terminates_Stored [of "skip_escaped_starting_character format" c "[]"] by blast

lemma parse_format_Inl:
  assumes "parse_format_to_placeholder_matchers pe format = Some (Inl e)"
  shows "pe = Unreadable \<and> e = invalid_read"
  using assms scan_loop_terminates [of "skip_escaped_starting_character format" pe "[]"]
  unfolding parse_format_to_placeholder_matchers_def by auto

lemma consume_specifier_Nil:
  "consume_specifier pe [] allowed =
     (case pe of
        Unreadable \<Rightarrow> Inl invalid_read
      | Stored c \<Rightarrow> if c \<in> set (specifiers_to_characters allowed) then Inl out_of_range
                    else Inr (None, Unconstrained))"
  by (cases pe) (simp_all add: consume_specifier_def consume_character_from_container_def)

lemma parse_first_placeholder_specifier_decides:
  assumes "consume_flags_if_any pe rest = Inr s2"
    and "consume_width_if_any pe s2 = Some (Inr (s3, wm))"
    and "consume_precision_if_any pe s3 = Some (Inr (s4, pm))"
    and "consume_length_if_any pe s4 = Inr (s5, allowed)"
  shows "if pe = Unreadable \<and> s5 = []
         then parse_first_placeholder pe (CHR ''%'' # rest) = Some (Inl invalid_read)
         else (\<exists>r. parse_first_placeholder pe (CHR ''%'' # rest) = Some (Inr r)
                 \<and> is_valid r = (\<exists>c s6. s5 = c # s6 \<and> c \<in> set (specifiers_to_characters allowed)))"
proof (cases s5)
  case Nil
  with assms show ?thesis
    by (cases pe) (simp_all add: parse_first_placeholder_def consume_start_character_def
        consume_specifier_Nil catch_exception_def invalid_placeholder_def)
next
  case (Cons c cs)
  with assms show ?thesis
    by (simp add: parse_first_placeholder_def consume_start_character_def consume_specifier_Cons
        invalid_placeholder_def)
qed

lemma stacked_flags_invalid:
  assumes "c1 \<in> set flag_characters" and "c2 \<in> set ''+- #''"
  shows "parse_first_placeholder pe (CHR ''%'' # c1 # c2 # rest) = Some (Inr invalid_placeholder)"
proof -
  from assms(2) have c2: "c2 \<noteq> CHR ''*''" "\<not> is_digit c2" "c2 \<noteq> CHR ''.''"
    "c2 \<notin> set (specifiers_to_characters all_specifiers)"
    by (auto simp: is_digit_def in_range_def specifiers_to_characters_def all_specifiers_def)
  from assms(1) have "consume_flags_if_any pe (c1 # c2 # rest) = Inr (c2 # rest)"
    by simp
  moreover from assms(2) have "consume_length_if_any pe (c2 # rest) = Inr (c2 # rest, all_specifiers)"
    by (auto simp: consume_length_if_any_def consume_string_def)
  ultimately obtain r where r: "parse_first_placeholder pe (CHR ''%'' # c1 # c2 # rest) = Some (Inr r)"
    and "is_valid r = (\<exists>c s6. c2 # rest = c # s6 \<and> c \<in> set (specifiers_to_characters all_specifiers))"
    using parse_first_placeholder_specifier_decides [of pe "c1 # c2 # rest" "c2 # rest" "c2 # rest" None
        "c2 # rest" None "c2 # rest" all_specifiers]
      consume_width_if_any_default [OF c2(1,2)] consume_precision_if_any_default [OF c2(3)]
    by auto
  with c2(4) have "\<not> is_valid r" by simp
  with r show ?thesis
    using parse_first_placeholder_invalid by blast
qed

lemma parse_with_length_modifier:
  assumes "c \<notin> set flag_characters" and "c \<noteq> CHR ''*''" and "\<not> is_digit c" and "c \<noteq> CHR ''.''"
    and "consume_length_if_any pe (c # cs) = Inr (sp # rest, allowed)"
  shows "parse_first_placeholder pe (CHR ''%'' # c # cs) =
           Some (Inr (if sp \<in> set (specifiers_to_characters allowed)
                      then \<lparr>is_valid = True,
                            type_matchers = [specifier_to_placeholder_type_matcher sp],
                            placeholder_length = int (length (c # cs)) - int (length rest) + 1\<rparr>
                      else invalid_placeholder))"
  using assms
  by (simp add: parse_first_placeholder_def consume_start_character_def
      consume_width_if_any_default consume_precision_if_any_default consume_specifier_Cons)

lemma integer_specifier_characters:
  "set (specifiers_to_characters integer_specifiers) = set ''diuoxXn''"
  by (simp add: specifiers_to_characters_def integer_specifiers_def)

lemma long_specifier_characters:
  "set (specifiers_to_characters long_specifiers) = set ''diuoxXcsn''"
  by (simp add: specifiers_to_characters_def long_specifiers_def)

lemma floating_specifier_characters:
  "set (specifiers_to_characters floating_specifiers) = set ''fFeEgGaA''"
  by (simp add: specifiers_to_characters_def floating_specifiers_def)

lemma all_specifier_characters:
  "set (specifiers_to_characters all_specifiers) = set ''diuoxXfFeEgGaAcspn''"
  by (simp add: specifiers_to_characters_def all_specifiers_def)

lemma consume_length_if_any_modifiers:
  "ln \<in> set [''hh'', ''ll'', ''j'', ''z'', ''t''] \<Longrightarrow>
     consume_length_if_any pe (ln @ sp # rest) = Inr (sp # rest, integer_specifiers)"
  "sp \<noteq> CHR ''h'' \<Longrightarrow> consume_length_if_any pe (''h'' @ sp # rest) = Inr (sp # rest, integer_specifiers)"
  "sp \<noteq> CHR ''l'' \<Longrightarrow> consume_length_if_any pe (''l'' @ sp # rest) = Inr (sp # rest, long_specifiers)"
  "consume_length_if_any pe (''L'' @ sp # rest) = Inr (sp # rest, floating_specifiers)"
proof -
  have hh: "consume_length_if_any pe (''hh'' @ sp # rest) = Inr (sp # rest, integer_specifiers)"
    by (simp add: consume_length_if_any_def consume_string_def substr_def)
  have ll: "consume_length_if_any pe (''ll'' @ sp # rest) = Inr (sp # rest, integer_specifiers)"
    by (simp add: consume_length_if_any_def consume_string_def substr_def)
  have j: "consume_length_if_any pe (''j'' @ sp # rest) = Inr (sp # rest, integer_specifiers)"
    by (simp add: consume_length_if_any_def consume_string_def substr_def)
  have z: "consume_length_if_any pe (''z'' @ sp # rest) = Inr (sp # rest, integer_specifiers)"
    by (simp add: consume_length_if_any_def consume_string_def substr_def)
  have t: "consume_length_if_any pe (''t'' @ sp # rest) = Inr (sp # rest, integer_specifiers)"
    by (simp add: consume_length_if_any_def consume_string_def substr_def)
  show "consume_length_if_any pe (ln @ sp # rest) = Inr (sp # rest, integer_specifiers)"
    if "ln \<in> set [''hh'', ''ll'', ''j'', ''z'', ''t'']"
  proof -
    from that consider "ln = ''hh''" | "ln = ''ll''" | "ln = ''j''" | "ln = ''z''" | "ln = ''t''"
      by (simp only: set_simps insert_iff empty_iff) blast
    then show ?thesis
      by cases (simp_all only: hh ll j z t)
  qed
  show "consume_length_if_any pe (''h'' @ sp # rest) = Inr (sp # rest, integer_specifiers)"
    if "sp \<noteq> CHR ''h''"
    using that by (simp add: consume_length_if_any_def consume_string_def substr_def)
  show "consume_length_if_any pe (''l'' @ sp # rest) = Inr (sp # rest, long_specifiers)"
    if "sp \<noteq> CHR ''l''"
    using that by (simp add: consume_length_if_any_def consume_string_def substr_def)
  show "consume_length_if_any pe (''L'' @ sp # rest) = Inr (sp # rest, floating_specifiers)"
    by (simp add: consume_length_if_any_def consume_string_def substr_def)
qed

lemma parse_with_modifier:
  assumes "ln \<noteq> []" and "hd ln \<in> set ''hlLjzt''"
    and "consume_length_if_any pe (ln @ sp # rest) = Inr (sp # rest, allowed)"
  shows "\<exists>r. parse_first_placeholder pe (CHR ''%'' # ln @ sp # rest) = Some (Inr r)
           \<and> is_valid r = (sp \<in> set (specifiers_to_characters allowed))
           \<and> type_matchers r = (if sp \<in> set (specifiers_to_characters allowed)
                                 then [specifier_to_placeholder_type_matcher sp] else [])"
proof -
  from assms(1) obtain c cs where ln: "ln = c # cs" by (cases ln) auto
  with assms(2) have c: "c \<notin> set flag_characters" "c \<noteq> CHR ''*''" "\<not> is_digit c" "c \<noteq> CHR ''.''"
    by (auto simp: flag_characters_def is_digit_def in_range_def)
  from assms(3) ln have "consume_length_if_any pe (c # cs @ sp # rest) = Inr (sp # rest, allowed)"
    by simp
  from parse_with_length_modifier [OF c this] ln show ?thesis
    by (simp add: invalid_placeholder_def)
qed

section \<open>The claims\<close>

subsection \<open>C1: the string "100% sure %d"\<close>

text \<open>
  Claim C1 says that scanning \<^verbatim>\<open>"100% sure %d"\<close> yields the single matcher for \<^verbatim>\<open>%d\<close>, the first
  \<^verbatim>\<open>%\<close> being skipped as literal text. In the code the space after that \<^verbatim>\<open>%\<close> is a flag
  and the \<^verbatim>\<open>s\<close> behind it a specifier, so \<^verbatim>\<open>"% s"\<close> is a valid placeholder of three characters
  for a string argument. Claim C1 as amended: scanning \<^verbatim>\<open>"100% sure %d"\<close> yields the
  sequence of a string matcher and a signed integer matcher, whatever lies behind the string.
\<close>

theorem scan_100_percent_sure:
  "parse_first_placeholder pe ''% sure %d''
     = Some (Inr \<lparr>is_valid = True, type_matchers = [StringType], placeholder_length = 3\<rparr>)
   \<and> parse_format_to_placeholder_matchers pe ''100% sure %d''
     = Some (Inr [StringType, SignedIntType])"
  by (simp add: eval_simps)

theorem scan_100_percent_sure_witness:
  "parse_first_placeholder (Stored (CHR 0x00)) ''% sure %d''
     = Some (Inr \<lparr>is_valid = True, type_matchers = [StringType], placeholder_length = 3\<rparr>)
   \<and> parse_format_to_placeholder_matchers (Stored (CHR 0x00)) ''100% sure %d''
     = Some (Inr [StringType, SignedIntType])"
  using scan_100_percent_sure [of "Stored (CHR 0x00)"] by simp

text \<open>
  Claim C1 as stated fails: the scan of \<^verbatim>\<open>"100% sure %d"\<close> is not the sequence of one signed
  integer matcher, neither when the string is followed by a NUL nor when no byte can be read
  behind it.
\<close>

theorem scan_100_percent_sure_counterexample:
  "parse_format_to_placeholder_matchers (Stored (CHR 0x00)) ''100% sure %d'' \<noteq> Some (Inr [SignedIntType])
   \<and> parse_format_to_placeholder_matchers Unreadable ''100% sure %d'' \<noteq> Some (Inr [SignedIntType])"
  by (simp add: eval_simps)

subsection \<open>C2: truncated input\<close>

text \<open>
  Claim C2 says that an access past the end of the string is caught in the placeholder
  parser and treated as a malformed placeholder, so that the scan of \<^verbatim>\<open>"%"\<close> is the empty
  sequence and nothing faults. The code reads the first character of the empty view behind
  the \<^verbatim>\<open>%\<close> without a look at its size, and this read throws nothing that the handler could
  catch. Where no byte can be read behind the string, the flags stage runs into an invalid
  read, which ends the placeholder parser and with it the scan. Where a byte is stored behind
  the string, as the NUL behind a literal is, the claim holds: the parse of \<^verbatim>\<open>"%"\<close> is
  invalid, its scan is empty, every scan returns a sequence; and the exception of
  \<^verbatim>\<open>substr\<close> never leaves the placeholder parser or the scanner.
\<close>

theorem lone_percent_invalid_read:
  "consume_flags_if_any Unreadable [] = Inl invalid_read
   \<and> parse_first_placeholder Unreadable ''%'' = Some (Inl invalid_read)
   \<and> parse_format_to_placeholder_matchers Unreadable ''%'' = Some (Inl invalid_read)
   \<and> parse_first_placeholder (Stored c) ''%'' = Some (Inr invalid_placeholder)
   \<and> parse_format_to_placeholder_matchers (Stored c) ''%'' = Some (Inr [])
   \<and> (\<exists>ms. parse_format_to_placeholder_matchers (Stored c) format = Some (Inr ms))
   \<and> parse_first_placeholder pe format \<noteq> Some (Inl out_of_range)
   \<and> parse_format_to_placeholder_matchers pe format \<noteq> Some (Inl out_of_range)"
proof -
  have 1: "consume_flags_if_any Unreadable [] = Inl invalid_read"
    by (simp add: consume_flags_if_any_def consume_character_from_set_def flag_characters_def)
  have 2: "parse_format_to_placeholder_matchers Unreadable ''%'' = Some (Inl invalid_read)"
    by (simp add: parse_format_to_placeholder_matchers_def skip_escaped_starting_character_def
        scan_loop_Cons scan_iteration_def parse_first_placeholder_lone_percent_Unreadable)
  have 3: "parse_format_to_placeholder_matchers (Stored c) ''%'' = Some (Inr [])"
    by (simp add: parse_format_to_placeholder_matchers_def skip_escaped_starting_character_def
        scan_loop_Cons scan_iteration_def parse_first_placeholder_lone_percent invalid_placeholder_def)
  have 4: "parse_first_placeholder pe format \<noteq> Some (Inl out_of_range)"
    using parse_first_placeholder_Inl [of pe format out_of_range] by auto
  have 5: "parse_format_to_placeholder_matchers pe format \<noteq> Some (Inl out_of_range)"
    using parse_format_Inl [of pe format out_of_range] by auto
  show ?thesis
    using 1 parse_first_placeholder_lone_percent_Unreadable 2 parse_first_placeholder_lone_percent 3
      parse_format_Stored 4 5 by blast
qed

subsection \<open>C3: order of the matchers\<close>

text \<open>
  Claim C3: a valid placeholder is a \<^verbatim>\<open>%\<close>, at most one flag, a width (\<^verbatim>\<open>*\<close> or a run of
  digits, possibly empty), a precision (absent, \<^verbatim>\<open>.*\<close> or a dot and a run of digits), a length
  modifier and a specifier that this modifier allows; its matchers are, in this order, an
  unsigned integer matcher if the width is \<^verbatim>\<open>*\<close>, an unsigned integer matcher if the precision
  is \<^verbatim>\<open>.*\<close>, and the matcher of the specifier. Scanning \<^verbatim>\<open>"%*.*f"\<close> yields an unsigned
  integer, an unsigned integer and a floating matcher.
\<close>

theorem placeholder_matcher_order:
  "(parse_first_placeholder pe format = Some (Inr r) \<and> is_valid r \<longrightarrow>
      (\<exists>fl wd pr ln allowed sp rest.
           format = CHR ''%'' # fl @ wd @ pr @ ln @ sp # rest
         \<and> (fl = [] \<or> (\<exists>c \<in> set flag_characters. fl = [c]))
         \<and> (wd = ''*'' \<or> list_all is_digit wd)
         \<and> (pr = [] \<or> pr = ''.*'' \<or> (\<exists>ds. pr = CHR ''.'' # ds \<and> list_all is_digit ds))
         \<and> (ln, allowed) \<in> set length_modifiers
         \<and> sp \<in> set (specifiers_to_characters allowed)
         \<and> type_matchers r =
               (if wd = ''*'' then [UnsignedIntType] else [])
             @ (if pr = ''.*'' then [UnsignedIntType] else [])
             @ [specifier_to_placeholder_type_matcher sp]
         \<and> placeholder_length r = int (length (CHR ''%'' # fl @ wd @ pr @ ln @ [sp]))))
   \<and> parse_format_to_placeholder_matchers pe ''%*.*f''
       = Some (Inr [UnsignedIntType, UnsignedIntType, FloatingType])"
proof -
  have "parse_format_to_placeholder_matchers pe ''%*.*f''
       = Some (Inr [UnsignedIntType, UnsignedIntType, FloatingType])"
    by (simp add: eval_simps)
  then show ?thesis
    using parse_first_placeholder_valid [of pe format r] by blast
qed

theorem placeholder_matcher_order_witness:
  "parse_first_placeholder (Stored (CHR 0x00)) ''%*.*f''
     = Some (Inr \<lparr>is_valid = True, type_matchers = [UnsignedIntType, UnsignedIntType, FloatingType],
             placeholder_length = 5\<rparr>)
   \<and> (\<exists>fl wd pr ln allowed sp rest.
           ''%*.*f'' = CHR ''%'' # fl @ wd @ pr @ ln @ sp # rest
         \<and> (fl = [] \<or> (\<exists>c \<in> set flag_characters. fl = [c]))
         \<and> (wd = ''*'' \<or> list_all is_digit wd)
         \<and> (pr = [] \<or> pr = ''.*'' \<or> (\<exists>ds. pr = CHR ''.'' # ds \<and> list_all is_digit ds))
         \<and> (ln, allowed) \<in> set length_modifiers
         \<and> sp \<in> set (specifiers_to_characters allowed)
         \<and> [UnsignedIntType, UnsignedIntType, FloatingType] =
               (if wd = ''*'' then [UnsignedIntType] else [])
             @ (if pr = ''.*'' then [UnsignedIntType] else [])
             @ [specifier_to_placeholder_type_matcher sp]
         \<and> (5::int) = int (length (CHR ''%'' # fl @ wd @ pr @ ln @ [sp])))
   \<and> parse_format_to_placeholder_matchers (Stored (CHR 0x00)) ''%*.*f''
       = Some (Inr [UnsignedIntType, UnsignedIntType, FloatingType])"
proof -
  have p: "parse_first_placeholder (Stored (CHR 0x00)) ''%*.*f''
     = Some (Inr \<lparr>is_valid = True, type_matchers = [UnsignedIntType, UnsignedIntType, FloatingType],
             placeholder_length = 5\<rparr>)"
    by (simp add: eval_simps)
  show ?thesis
    using placeholder_matcher_order [where pe = "Stored (CHR 0x00)" and format = "''%*.*f''"
        and r = "\<lparr>is_valid = True, type_matchers = [UnsignedIntType, UnsignedIntType, FloatingType],
             placeholder_length = 5\<rparr>"] p
    by simp
qed

subsection \<open>C4: length modifiers\<close>

text \<open>
  Claim C4: a length modifier restricts the specifiers that are legal after it. For every
  character \<^verbatim>\<open>sp\<close> behind the modifier, the parse of \<^verbatim>\<open>%\<close>, the modifier and \<^verbatim>\<open>sp\<close> is valid exactly
  when \<^verbatim>\<open>sp\<close> is one of \<^verbatim>\<open>d i u o x X n\<close> after \<^verbatim>\<open>hh\<close>, \<^verbatim>\<open>ll\<close>, \<^verbatim>\<open>h\<close>, \<^verbatim>\<open>j\<close>, \<^verbatim>\<open>z\<close> and \<^verbatim>\<open>t\<close>,
  one of \<^verbatim>\<open>d i u o x X c s n\<close> after \<^verbatim>\<open>l\<close>, and one of \<^verbatim>\<open>f F e E g G a A\<close> after \<^verbatim>\<open>L\<close>, and a valid parse has the
  matcher of \<^verbatim>\<open>sp\<close> as its only matcher (after a single \<^verbatim>\<open>h\<close> or \<^verbatim>\<open>l\<close> the character is taken not to
  double the modifier). Without a modifier each of the eighteen specifiers is valid. So
  scanning \<^verbatim>\<open>"%ld"\<close> yields a signed integer matcher and scanning \<^verbatim>\<open>"%Lf"\<close> a floating matcher,
  while the specifier stage rejects the \<^verbatim>\<open>d\<close> of \<^verbatim>\<open>"%Ld"\<close>: the placeholder parser reports it as
  invalid, whatever follows, the scanner goes on one character behind the \<^verbatim>\<open>%\<close>, and the scan of
  \<^verbatim>\<open>"%Ld"\<close> is empty.
\<close>

theorem length_modifier_restricts_specifier:
  "(ln \<in> set [''hh'', ''ll'', ''j'', ''z'', ''t''] \<longrightarrow>
      (\<exists>r. parse_first_placeholder pe (CHR ''%'' # ln @ sp # rest) = Some (Inr r)
          \<and> is_valid r = (sp \<in> set ''diuoxXn'')
          \<and> type_matchers r = (if sp \<in> set ''diuoxXn''
                                then [specifier_to_placeholder_type_matcher sp] else [])))
   \<and> (sp \<noteq> CHR ''h'' \<longrightarrow>
      (\<exists>r. parse_first_placeholder pe (''%h'' @ sp # rest) = Some (Inr r)
          \<and> is_valid r = (sp \<in> set ''diuoxXn'')
          \<and> type_matchers r = (if sp \<in> set ''diuoxXn''
                                then [specifier_to_placeholder_type_matcher sp] else [])))
   \<and> (sp \<noteq> CHR ''l'' \<longrightarrow>
      (\<exists>r. parse_first_placeholder pe (''%l'' @ sp # rest) = Some (Inr r)
          \<and> is_valid r = (sp \<in> set ''diuoxXcsn'')
          \<and> type_matchers r = (if sp \<in> set ''diuoxXcsn''
                                then [specifier_to_placeholder_type_matcher sp] else [])))
   \<and> (\<exists>r. parse_first_placeholder pe (''%L'' @ sp # rest) = Some (Inr r)
          \<and> is_valid r = (sp \<in> set ''fFeEgGaA'')
          \<and> type_matchers r = (if sp \<in> set ''fFeEgGaA''
                                then [specifier_to_placeholder_type_matcher sp] else []))
   \<and> (sp \<in> set ''diuoxXfFeEgGaAcspn'' \<longrightarrow>
      parse_first_placeholder pe (CHR ''%'' # sp # rest)
        = Some (Inr \<lparr>is_valid = True, type_matchers = [specifier_to_placeholder_type_matcher sp],
                     placeholder_length = 2\<rparr>))
   \<and> parse_format_to_placeholder_matchers pe ''%ld'' = Some (Inr [SignedIntType])
   \<and> parse_format_to_placeholder_matchers pe ''%Lf'' = Some (Inr [FloatingType])
   \<and> consume_length_if_any pe (''Ld'' @ rest) = Inr (''d'' @ rest, floating_specifiers)
   \<and> consume_specifier pe (''d'' @ rest) floating_specifiers = Inr (None, Unconstrained)
   \<and> parse_first_placeholder pe (''%Ld'' @ rest) = Some (Inr invalid_placeholder)
   \<and> scan_iteration pe (ms, ''%Ld'') = Some (Inr (ms, ''Ld''))
   \<and> parse_format_to_placeholder_matchers pe ''%Ld'' = Some (Inr [])"
proof -
  have 1: "\<exists>r. parse_first_placeholder pe (CHR ''%'' # ln @ sp # rest) = Some (Inr r)
          \<and> is_valid r = (sp \<in> set ''diuoxXn'')
          \<and> type_matchers r = (if sp \<in> set ''diuoxXn''
                                then [specifier_to_placeholder_type_matcher sp] else [])"
    if ln: "ln \<in> set [''hh'', ''ll'', ''j'', ''z'', ''t'']"
  proof -
    from ln consider "ln = ''hh''" | "ln = ''ll''" | "ln = ''j''" | "ln = ''z''" | "ln = ''t''"
      by (simp only: set_simps insert_iff empty_iff) blast
    then have "ln \<noteq> []" "hd ln \<in> set ''hlLjzt''"
      by (cases; simp)+
    from parse_with_modifier [OF this consume_length_if_any_modifiers(1) [OF ln]]
    show ?thesis unfolding integer_specifier_characters .
  qed
  have 2: "\<exists>r. parse_first_placeholder pe (''%h'' @ sp # rest) = Some (Inr r)
          \<and> is_valid r = (sp \<in> set ''diuoxXn'')
          \<and> type_matchers r = (if sp \<in> set ''diuoxXn''
                                then [specifier_to_placeholder_type_matcher sp] else [])"
    if sp: "sp \<noteq> CHR ''h''"
  proof -
    have "''h'' \<noteq> []" "hd ''h'' \<in> set ''hlLjzt''" by auto
    from parse_with_modifier [OF this consume_length_if_any_modifiers(2) [OF sp]]
    show ?thesis unfolding integer_specifier_characters by simp
  qed
  have 3: "\<exists>r. parse_first_placeholder pe (''%l'' @ sp # rest) = Some (Inr r)
          \<and> is_valid r = (sp \<in> set ''diuoxXcsn'')
          \<and> type_matchers r = (if sp \<in> set ''diuoxXcsn''
                                then [specifier_to_placeholder_type_matcher sp] else [])"
    if sp: "sp \<noteq> CHR ''l''"
  proof -
    have "''l'' \<noteq> []" "hd ''l'' \<in> set ''hlLjzt''" by auto
    from parse_with_modifier [OF this consume_length_if_any_modifiers(3) [OF sp]]
    show ?thesis unfolding long_specifier_characters by simp
  qed
  have 4: "\<exists>r. parse_first_placeholder pe (''%L'' @ sp # rest) = Some (Inr r)
          \<and> is_valid r = (sp \<in> set ''fFeEgGaA'')
          \<and> type_matchers r = (if sp \<in> set ''fFeEgGaA''
                                then [specifier_to_placeholder_type_matcher sp] else [])"
  proof -
    have "''L'' \<noteq> []" "hd ''L'' \<in> set ''hlLjzt''" by auto
    from parse_with_modifier [OF this consume_length_if_any_modifiers(4)]
    show ?thesis unfolding floating_specifier_characters by simp
  qed
  have 5: "parse_first_placeholder pe (CHR ''%'' # sp # rest)
        = Some (Inr \<lparr>is_valid = True, type_matchers = [specifier_to_placeholder_type_matcher sp],
                     placeholder_length = 2\<rparr>)"
    if sp: "sp \<in> set ''diuoxXfFeEgGaAcspn''"
  proof -
    from sp have c: "sp \<notin> set flag_characters" "sp \<noteq> CHR ''*''" "\<not> is_digit sp" "sp \<noteq> CHR ''.''"
      by (auto simp: flag_characters_def is_digit_def in_range_def)
    from sp have "consume_length_if_any pe (sp # rest) = Inr (sp # rest, all_specifiers)"
      by (auto simp: consume_length_if_any_def consume_string_def substr_def)
    from parse_with_length_modifier [OF c this] sp show ?thesis
      unfolding all_specifier_characters by simp
  qed
  have 6: "parse_format_to_placeholder_matchers pe ''%ld'' = Some (Inr [SignedIntType])"
    "parse_format_to_placeholder_matchers pe ''%Lf'' = Some (Inr [FloatingType])"
    "consume_length_if_any pe (''Ld'' @ rest) = Inr (''d'' @ rest, floating_specifiers)"
    "consume_specifier pe (''d'' @ rest) floating_specifiers = Inr (None, Unconstrained)"
    "parse_first_placeholder pe (''%Ld'' @ rest) = Some (Inr invalid_placeholder)"
    "scan_iteration pe (ms, ''%Ld'') = Some (Inr (ms, ''Ld''))"
    "parse_format_to_placeholder_matchers pe ''%Ld'' = Some (Inr [])"
    by (simp_all add: eval_simps)
  show ?thesis
    using 1 2 3 4 5 6 by blast
qed

theorem length_modifier_restricts_specifier_witness:
  "''hh'' \<in> set [''hh'', ''ll'', ''j'', ''z'', ''t'']
   \<and> CHR ''s'' \<in> set ''diuoxXfFeEgGaAcspn''
   \<and> (\<exists>r. parse_first_placeholder (Stored (CHR 0x00)) ''%hhs'' = Some (Inr r)
          \<and> is_valid r = (CHR ''s'' \<in> set ''diuoxXn'') \<and> type_matchers r = [])
   \<and> (\<exists>r. parse_first_placeholder (Stored (CHR 0x00)) ''%hs'' = Some (Inr r)
          \<and> is_valid r = (CHR ''s'' \<in> set ''diuoxXn'') \<and> type_matchers r = [])
   \<and> (\<exists>r. parse_first_placeholder (Stored (CHR 0x00)) ''%ls'' = Some (Inr r)
          \<and> is_valid r = (CHR ''s'' \<in> set ''diuoxXcsn'') \<and> type_matchers r = [StringType])
   \<and> (\<exists>r. parse_first_placeholder (Stored (CHR 0x00)) ''%Ls'' = Some (Inr r)
          \<and> is_valid r = (CHR ''s'' \<in> set ''fFeEgGaA'') \<and> type_matchers r = [])
   \<and> parse_first_placeholder (Stored (CHR 0x00)) ''%s''
        = Some (Inr \<lparr>is_valid = True, type_matchers = [StringType], placeholder_length = 2\<rparr>)
   \<and> parse_format_to_placeholder_matchers (Stored (CHR 0x00)) ''%ld'' = Some (Inr [SignedIntType])
   \<and> parse_format_to_placeholder_matchers (Stored (CHR 0x00)) ''%Lf'' = Some (Inr [FloatingType])
   \<and> parse_first_placeholder (Stored (CHR 0x00)) ''%Ld'' = Some (Inr invalid_placeholder)
   \<and> scan_iteration (Stored (CHR 0x00)) ([], ''%Ld'') = Some (Inr ([], ''Ld''))
   \<and> parse_format_to_placeholder_matchers (Stored (CHR 0x00)) ''%Ld'' = Some (Inr [])"
  using length_modifier_restricts_specifier [where pe = "Stored (CHR 0x00)" and ln = "''hh''"
      and sp = "CHR ''s''" and rest = "[]" and ms = "[]"]
  by (simp add: specifier_to_placeholder_type_matcher_def)

subsection \<open>C5: failure of a placeholder parse\<close>



subsection \<open>C6: termination of the scanner\<close>




subsection \<open>C7: escaped percent signs\<close>

text \<open>
  Claim C7 says that an escaped percent sign at the start of the remaining view is always
  skipped without a matcher. The scan of \<^verbatim>\<open>"%%d"\<close> is empty, as the claim says. The scanner
  skips one escape only before each attempt to parse a placeholder, though: of \<^verbatim>\<open>"%%%%d"\<close> it
  skips the first escape, the view \<^verbatim>\<open>"%%d"\<close> then starts with an escape again, the failed attempt
  on it advances by one character only, and the second half of that escape is parsed with the
  \<^verbatim>\<open>d\<close> as a placeholder, which yields a signed integer matcher.
\<close>

theorem consecutive_escapes_yield_matcher:
  "parse_format_to_placeholder_matchers pe ''%%d'' = Some (Inr [])
   \<and> skip_escaped_starting_character ''%%%%d'' = ''%%d''
   \<and> scan_iteration pe ([], ''%%d'') = Some (Inr ([], ''%d''))
   \<and> parse_format_to_placeholder_matchers pe ''%%%%d'' = Some (Inr [SignedIntType])"
  by (simp add: eval_simps)

subsection \<open>C8: one flag\<close>

text \<open>
  Claim C8: the flags stage strips at most one character, and only a flag: what it returns
  is its view or that view without a first character that is a flag. A second flag is left
  in the view. The placeholder parser calls the stage once, so a \<^verbatim>\<open>%\<close> followed by a
  flag and one of the flags \<^verbatim>\<open>+\<close>, \<^verbatim>\<open>-\<close>, space or \<^verbatim>\<open>#\<close> is not a valid placeholder,
  as \<^verbatim>\<open>"%-+5d"\<close> shows, whose scan is empty.
\<close>

theorem flags_at_most_one:
  "(consume_flags_if_any pe format = Inr v \<longrightarrow>
      v = format \<or> (\<exists>c. c \<in> set flag_characters \<and> format = c # v))
   \<and> (c1 \<in> set flag_characters \<longrightarrow> consume_flags_if_any pe (c1 # c2 # rest) = Inr (c2 # rest))
   \<and> (c1 \<in> set flag_characters \<and> c2 \<in> set ''+- #'' \<longrightarrow>
        parse_first_placeholder pe (CHR ''%'' # c1 # c2 # rest) = Some (Inr invalid_placeholder))
   \<and> parse_first_placeholder pe ''%-+5d'' = Some (Inr invalid_placeholder)
   \<and> parse_format_to_placeholder_matchers pe ''%-+5d'' = Some (Inr [])"
proof -
  have 1: "consume_flags_if_any pe format = Inr v \<longrightarrow>
      v = format \<or> (\<exists>c. c \<in> set flag_characters \<and> format = c # v)"
  proof
    assume "consume_flags_if_any pe format = Inr v"
    then obtain fl where fl: "format = fl @ v" and "fl = [] \<or> (\<exists>c \<in> set flag_characters. fl = [c])"
      using consume_flags_if_any_Inr by blast
    then consider "fl = []" | c where "c \<in> set flag_characters" "fl = [c]"
      by blast
    then show "v = format \<or> (\<exists>c. c \<in> set flag_characters \<and> format = c # v)"
    proof cases
      case 1
      with fl show ?thesis by simp
    next
      case 2
      with fl have "format = c # v" by simp
      with 2 show ?thesis by blast
    qed
  qed
  have 2: "c1 \<in> set flag_characters \<longrightarrow> consume_flags_if_any pe (c1 # c2 # rest) = Inr (c2 # rest)"
    by simp
  have 3: "c1 \<in> set flag_characters \<and> c2 \<in> set ''+- #'' \<longrightarrow>
        parse_first_placeholder pe (CHR ''%'' # c1 # c2 # rest) = Some (Inr invalid_placeholder)"
    using stacked_flags_invalid by blast
  have 4: "parse_first_placeholder pe ''%-+5d'' = Some (Inr invalid_placeholder)"
    "parse_format_to_placeholder_matchers pe ''%-+5d'' = Some (Inr [])"
    by (simp_all add: eval_simps)
  show ?thesis using 1 2 3 4 by blast
qed

theorem flags_at_most_one_witness:
  "consume_flags_if_any (Stored (CHR 0x00)) ''-+5d'' = Inr ''+5d''
   \<and> (''+5d'' = ''-+5d'' \<or> (\<exists>c. c \<in> set flag_characters \<and> ''-+5d'' = c # ''+5d''))
   \<and> CHR ''-'' \<in> set flag_characters \<and> CHR ''+'' \<in> set ''+- #''
   \<and> parse_first_placeholder (Stored (CHR 0x00)) ''%-+5d'' = Some (Inr invalid_placeholder)
   \<and> parse_format_to_placeholder_matchers (Stored (CHR 0x00)) ''%-+5d'' = Some (Inr [])"
proof -
  have "CHR ''-'' \<in> set flag_characters" "CHR ''+'' \<in> set ''+- #''"
    by (simp_all add: flag_characters_def)
  then show ?thesis
    using flags_at_most_one [where pe = "Stored (CHR 0x00)" and format = "''-+5d''" and v = "''+5d''"
        and ?c1.0 = "CHR ''-''" and ?c2.0 = "CHR ''+''" and rest = "''5d''"]
    by simp
qed

subsection \<open>C9: verification of the argument count\<close>

text \<open>
  Claim C9: the verification of a format string against the supplied arguments succeeds if
  and only if the number of arguments equals the number of matchers of the scan: whenever
  the scan yields a sequence, which it does for every string with a byte stored behind it,
  the verification yields the comparison of the two lengths. The scan of
  \<^verbatim>\<open>"%d %d"\<close> has two matchers; its verification fails against one argument and succeeds
  against two.
\<close>

theorem verification_counts_arguments:
  "(\<exists>matchers. parse_format_to_placeholder_matchers (Stored c) format = Some (Inr matchers)
        \<and> verify_format_with_arguments (Stored c) format args
            = Some (Inr (length args = length matchers)))
   \<and> (parse_format_to_placeholder_matchers pe format = Some (Inr ms) \<longrightarrow>
        verify_format_with_arguments pe format args = Some (Inr (length args = length ms)))
   \<and> parse_format_to_placeholder_matchers pe ''%d %d'' = Some (Inr [SignedIntType, SignedIntType])
   \<and> verify_format_with_arguments pe ''%d %d'' [a] = Some (Inr False)
   \<and> verify_format_with_arguments pe ''%d %d'' [a, b] = Some (Inr True)"
proof -
  obtain matchers where "parse_format_to_placeholder_matchers (Stored c) format = Some (Inr matchers)"
    using parse_format_Stored by blast
  then have "\<exists>matchers. parse_format_to_placeholder_matchers (Stored c) format = Some (Inr matchers)
        \<and> verify_format_with_arguments (Stored c) format args
            = Some (Inr (length args = length matchers))"
    by (simp add: verify_format_with_arguments_def)
  moreover have "parse_format_to_placeholder_matchers pe format = Some (Inr ms) \<longrightarrow>
        verify_format_with_arguments pe format args = Some (Inr (length args = length ms))"
    by (simp add: verify_format_with_arguments_def)
  moreover have s: "parse_format_to_placeholder_matchers pe ''%d %d'' = Some (Inr [SignedIntType, SignedIntType])"
    by (simp add: eval_simps)
  moreover have "verify_format_with_arguments pe ''%d %d'' [a] = Some (Inr False)"
    "verify_format_with_arguments pe ''%d %d'' [a, b] = Some (Inr True)"
    by (simp_all add: verify_format_with_arguments_def s)
  ultimately show ?thesis by blast
qed

theorem verification_counts_arguments_witness:
  "parse_format_to_placeholder_matchers (Stored (CHR 0x00)) ''%s'' = Some (Inr [StringType])
   \<and> verify_format_with_arguments (Stored (CHR 0x00)) ''%d %d'' [1 :: int] = Some (Inr False)
   \<and> verify_format_with_arguments (Stored (CHR 0x00)) ''%d %d'' [1 :: int, 2] = Some (Inr True)
   \<and> verify_format_with_arguments (Stored (CHR 0x00)) ''%s'' [1 :: int, 2] = Some (Inr False)"
proof -
  have "parse_format_to_placeholder_matchers (Stored (CHR 0x00)) ''%s'' = Some (Inr [StringType])"
    by (simp add: eval_simps)
  then show ?thesis
    using verification_counts_arguments [where pe = "Stored (CHR 0x00)" and c = "CHR 0x00"
        and format = "''%s''" and ms = "[StringType]"
        and args = "[1 :: int, 2]" and a = "1 :: int" and b = "2 :: int"]
    by simp
qed

subsection \<open>C10: number of matchers of a placeholder\<close>

text \<open>
  Claim C10: a successful placeholder parse produces between one and three matchers. The
  last one is the matcher of the specifier, which is the last character the placeholder
  consumed, and every matcher before it is an unsigned integer matcher.
\<close>

theorem placeholder_matcher_count:
  "parse_first_placeholder pe format = Some (Inr r) \<and> is_valid r \<longrightarrow>
     1 \<le> length (type_matchers r) \<and> length (type_matchers r) \<le> 3
     \<and> 2 \<le> placeholder_length r \<and> placeholder_length r \<le> int (length format)
     \<and> last (type_matchers r)
         = specifier_to_placeholder_type_matcher (format ! (nat (placeholder_length r) - 1))
     \<and> list_all (\<lambda>m. m = UnsignedIntType) (butlast (type_matchers r))"
proof
  assume a: "parse_first_placeholder pe format = Some (Inr r) \<and> is_valid r"
  then obtain fl wd pr ln sp rest where
    f: "format = CHR ''%'' # fl @ wd @ pr @ ln @ sp # rest" and
    t: "type_matchers r =
               (if wd = ''*'' then [UnsignedIntType] else [])
             @ (if pr = ''.*'' then [UnsignedIntType] else [])
             @ [specifier_to_placeholder_type_matcher sp]" and
    l: "placeholder_length r = int (length (CHR ''%'' # fl @ wd @ pr @ ln @ [sp]))"
    using parse_first_placeholder_valid [of pe format r] by blast
  have "format = (CHR ''%'' # fl @ wd @ pr @ ln) @ sp # rest"
    using f by simp
  then have "format ! length (CHR ''%'' # fl @ wd @ pr @ ln) = sp"
    by (metis nth_append_length)
  moreover have "nat (placeholder_length r) - 1 = length (CHR ''%'' # fl @ wd @ pr @ ln)"
    using l by simp
  ultimately have sp: "format ! (nat (placeholder_length r) - 1) = sp"
    by simp
  have "last (type_matchers r) = specifier_to_placeholder_type_matcher sp"
    using t by simp
  moreover have "list_all (\<lambda>m. m = UnsignedIntType) (butlast (type_matchers r))"
    using t by (simp add: butlast_append)
  moreover have "1 \<le> length (type_matchers r) \<and> length (type_matchers r) \<le> 3"
    using t by simp
  moreover have "2 \<le> placeholder_length r \<and> placeholder_length r \<le> int (length format)"
    using a parse_first_placeholder_length by blast
  ultimately show "1 \<le> length (type_matchers r) \<and> length (type_matchers r) \<le> 3
     \<and> 2 \<le> placeholder_length r \<and> placeholder_length r \<le> int (length format)
     \<and> last (type_matchers r)
         = specifier_to_placeholder_type_matcher (format ! (nat (placeholder_length r) - 1))
     \<and> list_all (\<lambda>m. m = UnsignedIntType) (butlast (type_matchers r))"
    using sp by simp
qed

theorem placeholder_matcher_count_witness:
  "parse_first_placeholder (Stored (CHR 0x00)) ''%*.3lx rest''
     = Some (Inr \<lparr>is_valid = True, type_matchers = [UnsignedIntType, UnsignedIntType],
             placeholder_length = 6\<rparr>)
   \<and> 1 \<le> length [UnsignedIntType, UnsignedIntType]
   \<and> length [UnsignedIntType, UnsignedIntType] \<le> 3
   \<and> last [UnsignedIntType, UnsignedIntType]
         = specifier_to_placeholder_type_matcher (''%*.3lx rest'' ! (nat 6 - 1))
   \<and> list_all (\<lambda>m. m = UnsignedIntType) (butlast [UnsignedIntType, UnsignedIntType])"
proof -
  have p: "parse_first_placeholder (Stored (CHR 0x00)) ''%*.3lx rest''
     = Some (Inr \<lparr>is_valid = True, type_matchers = [UnsignedIntType, UnsignedIntType],
             placeholder_length = 6\<rparr>)"
    by (simp add: eval_simps)
  show ?thesis
    using placeholder_matcher_count [where pe = "Stored (CHR 0x00)" and format = "''%*.3lx rest''"
        and r = "\<lparr>is_valid = True, type_matchers = [UnsignedIntType, UnsignedIntType],
             placeholder_length = 6\<rparr>"] p
    by simp
qed

end
